theory Spec2Isabelle
  imports Complex_Main "HOL-Library.Word" "HOL-Library.Multiset"
begin

section \<open>Values of the server\<close>

text \<open>
  A JavaScript number is modelled by the rational it denotes (the payloads are JSON, so
  neither NaN nor an infinity reaches the handlers), a JavaScript string by its sequence of
  16-bit code units, \<open>null\<close> where a number is expected by \<open>None\<close>. An object is the
  list of its properties, each name once; property names are plain strings. A timestamp
  \<open>completedAt\<close> is the number of milliseconds that \<open>new Date(completedAt).getTime()\<close>
  returns for the stored ISO string. The question bank \<open>./data/questions\<close> is a parameter
  of every function that reads it.
\<close>

type_synonym number = rat
type_synonym js_string = "16 word list"

datatype jsval =
    JUndefined
  | JNull
  | JBool bool
  | JNum number
  | JStr js_string
  | JArr "jsval list"
  | JObj "(string \<times> jsval) list"

record question =
  qid :: number
  qtext :: js_string
  choices :: "js_string list"
  answer :: number

record entry =
  name :: js_string
  score :: number
  totalQuestions :: number
  totalTime :: "number option"
  completedAt :: int

section \<open>sortLeaderboard\<close>

text \<open>\<open>null - x\<close> and \<open>x - null\<close> coerce \<open>null\<close> to \<open>0\<close>.\<close>

definition toNumber :: "number option \<Rightarrow> number" where
  "toNumber t = (case t of None \<Rightarrow> 0 | Some x \<Rightarrow> x)"

definition compareEntries :: "entry \<Rightarrow> entry \<Rightarrow> number" where
  "compareEntries a b =
     (if score b \<noteq> score a then score b - score a
      else if totalTime a \<noteq> totalTime b then toNumber (totalTime a) - toNumber (totalTime b)
      else of_int (completedAt a - completedAt b))"

text \<open>
  \<open>Array.prototype.sort\<close> is stable: an element stays in front of the elements behind it
  unless the comparator puts it strictly after them. The model is the stable insertion sort,
  which is what every engine returns when the comparator is a consistent ordering of the
  elements; when every neighbouring pair is already in order it returns the array as it is.
\<close>

fun insertSorted :: "('a \<Rightarrow> 'a \<Rightarrow> number) \<Rightarrow> 'a \<Rightarrow> 'a list \<Rightarrow> 'a list" where
  "insertSorted cmp x [] = [x]"
| "insertSorted cmp x (y # ys) =
     (if cmp x y \<le> 0 then x # y # ys else y # insertSorted cmp x ys)"

definition arraySort :: "('a \<Rightarrow> 'a \<Rightarrow> number) \<Rightarrow> 'a list \<Rightarrow> 'a list" where
  "arraySort cmp xs = foldr (insertSorted cmp) xs []"

definition sortLeaderboard :: "entry list \<Rightarrow> entry list" where
  "sortLeaderboard entries = take 25 (arraySort compareEntries entries)"

section \<open>sanitizeName\<close>

text \<open>The code units matched by \<open>\s\<close> and removed by \<open>trim()\<close>.\<close>

definition isWhitespace :: "16 word \<Rightarrow> bool" where
  "isWhitespace c \<longleftrightarrow>
     c \<in> {0x09, 0x0A, 0x0B, 0x0C, 0x0D, 0x20, 0xA0, 0x1680, 0x2028, 0x2029, 0x202F, 0x205F,
          0x3000, 0xFEFF} \<or> (0x2000 \<le> c \<and> c \<le> 0x200A)"

text \<open>\<open>name.replace(/\s+/g, ' ')\<close>: every maximal run of whitespace becomes one space.\<close>

fun replaceWhitespace :: "js_string \<Rightarrow> js_string" where
  "replaceWhitespace [] = []"
| "replaceWhitespace [c] = [if isWhitespace c then 0x20 else c]"
| "replaceWhitespace (c # d # cs) =
     (if isWhitespace c
      then (if isWhitespace d then replaceWhitespace (d # cs) else 0x20 # replaceWhitespace (d # cs))
      else c # replaceWhitespace (d # cs))"

definition trim :: "js_string \<Rightarrow> js_string" where
  "trim s = rev (dropWhile isWhitespace (rev (dropWhile isWhitespace s)))"

definition sanitizeName :: "js_string \<Rightarrow> js_string" where
  "sanitizeName nm = take 32 (trim (replaceWhitespace nm))"

subsection \<open>The sanitized name in words\<close>

text \<open>
  The words of a string are its maximal runs of code units that are not whitespace. Collapsing
  the whitespace and trimming the ends is joining the words with single spaces.
\<close>

fun splitWords :: "js_string \<Rightarrow> js_string list" where
  "splitWords [] = []"
| "splitWords [c] = (if isWhitespace c then [] else [[c]])"
| "splitWords (c # d # cs) =
     (if isWhitespace c then splitWords (d # cs)
      else if isWhitespace d then [c] # splitWords (d # cs)
      else (case splitWords (d # cs) of [] \<Rightarrow> [[c]] | w # ws \<Rightarrow> (c # w) # ws))"

fun joinWords :: "js_string list \<Rightarrow> js_string" where
  "joinWords [] = []"
| "joinWords [w] = w"
| "joinWords (w # v # ws) = w @ 0x20 # joinWords (v # ws)"

text \<open>The space that a leading or a trailing run of whitespace becomes.\<close>

definition leadSpace :: "js_string \<Rightarrow> js_string" where
  "leadSpace s = (if s \<noteq> [] \<and> isWhitespace (hd s) then [0x20] else [])"

definition trailSpace :: "js_string \<Rightarrow> js_string" where
  "trailSpace s = (if splitWords s \<noteq> [] \<and> isWhitespace (last s) then [0x20] else [])"

section \<open>normalizeAnswers\<close>

text \<open>A \<open>Map\<close> from question id to choice, in insertion order.\<close>

type_synonym answer_map = "(number \<times> number) list"

definition getProp :: "jsval \<Rightarrow> string \<Rightarrow> jsval" where
  "getProp v k =
     (case v of
        JObj props \<Rightarrow> (case map_of props k of None \<Rightarrow> JUndefined | Some x \<Rightarrow> x)
      | _ \<Rightarrow> JUndefined)"

text \<open>
  The first test of the callback: \<open>entry\<close> is an object whose \<open>questionId\<close> and
  \<open>choiceIndex\<close> are numbers.
\<close>

definition objectEntry :: "jsval \<Rightarrow> (number \<times> number) option" where
  "objectEntry e =
     (case e of
        JObj props \<Rightarrow>
          (case (getProp e ''questionId'', getProp e ''choiceIndex'') of
             (JNum q, JNum c) \<Rightarrow> Some (q, c)
           | _ \<Rightarrow> None)
      | _ \<Rightarrow> None)"

definition questionIdSet :: "question list \<Rightarrow> number set" where
  "questionIdSet questions = set (map qid questions)"

definition mapHas :: "answer_map \<Rightarrow> number \<Rightarrow> bool" where
  "mapHas m k \<longleftrightarrow> k \<in> set (map fst m)"

definition normalizeEntry :: "question list \<Rightarrow> answer_map \<Rightarrow> jsval \<Rightarrow> nat \<Rightarrow> answer_map" where
  "normalizeEntry questions m e index =
     (case objectEntry e of
        Some (questionId, choiceIndex) \<Rightarrow>
          if questionId \<notin> questionIdSet questions \<or> mapHas m questionId then m
          else m @ [(questionId, choiceIndex)]
      | None \<Rightarrow>
          (case e of
             JNum n \<Rightarrow>
               if index < length questions
               then (let questionId = qid (questions ! index)
                     in if questionId \<notin> questionIdSet questions \<or> mapHas m questionId then m
                        else m @ [(questionId, n)])
               else m
           | _ \<Rightarrow> m))"

fun forEachEntry :: "question list \<Rightarrow> jsval list \<Rightarrow> nat \<Rightarrow> answer_map \<Rightarrow> answer_map" where
  "forEachEntry questions [] index m = m"
| "forEachEntry questions (e # es) index m =
     forEachEntry questions es (Suc index) (normalizeEntry questions m e index)"

definition normalizeAnswers :: "question list \<Rightarrow> jsval \<Rightarrow> answer_map option" where
  "normalizeAnswers questions rawAnswers =
     (case rawAnswers of
        JArr es \<Rightarrow>
          if es = [] then None
          else (let m = forEachEntry questions es 0 []
                in if length m \<noteq> length es then None else Some m)
      | _ \<Rightarrow> None)"

subsection \<open>What an entry of the answers array stands for\<close>

text \<open>
  The question id that an entry carries in its \<open>questionId\<close> property, and the pair of
  question id and choice that the entry at a position stands for: its two properties, or for a
  bare number the question at that position of the bank.
\<close>

definition entryQuestionId :: "jsval \<Rightarrow> number option" where
  "entryQuestionId e =
     (case e of
        JObj props \<Rightarrow> (case getProp e ''questionId'' of JNum q \<Rightarrow> Some q | _ \<Rightarrow> None)
      | _ \<Rightarrow> None)"

definition entryPair :: "question list \<Rightarrow> nat \<Rightarrow> jsval \<Rightarrow> (number \<times> number) option" where
  "entryPair bank i e =
     (case objectEntry e of
        Some p \<Rightarrow> Some p
      | None \<Rightarrow>
          (case e of
             JNum n \<Rightarrow> if i < length bank then Some (qid (bank ! i), n) else None
           | _ \<Rightarrow> None))"

section \<open>POST /api/submit\<close>

text \<open>
  \<open>Number(x.toFixed(2))\<close>: the nearest hundredth, the larger one of two; from \<open>10^21\<close> on
  \<open>toFixed\<close> prints the number itself.
\<close>

definition toFixed2 :: "number \<Rightarrow> number" where
  "toFixed2 x =
     (if 10 ^ 21 \<le> \<bar>x\<bar> then x
      else if x < 0 then - (of_int \<lfloor>- x * 100 + 1 / 2\<rfloor> / 100)
      else of_int \<lfloor>x * 100 + 1 / 2\<rfloor> / 100)"

definition payloadTime :: "jsval \<Rightarrow> number option" where
  "payloadTime v = (case v of JNum t \<Rightarrow> if 0 \<le> t then Some t else None | _ \<Rightarrow> None)"

text \<open>\<open>new Map(questions.map(q => [q.id, q]))\<close>: a later question replaces an earlier one.\<close>

definition questionMap :: "question list \<Rightarrow> number \<Rightarrow> question option" where
  "questionMap questions = map_of (rev (map (\<lambda>q. (qid q, q)) questions))"

text \<open>The choice is the answer index of the question that the id refers to.\<close>

definition awarded :: "question list \<Rightarrow> number \<times> number \<Rightarrow> bool" where
  "awarded bank p \<longleftrightarrow>
     (case questionMap bank (fst p) of None \<Rightarrow> False | Some q \<Rightarrow> answer q = snd p)"

definition entryAwarded :: "question list \<Rightarrow> nat \<times> jsval \<Rightarrow> bool" where
  "entryAwarded bank ie \<longleftrightarrow>
     (case entryPair bank (fst ie) (snd ie) of None \<Rightarrow> False | Some p \<Rightarrow> awarded bank p)"

definition computeScore :: "answer_map \<Rightarrow> question list \<Rightarrow> number" where
  "computeScore answerMap answeredQuestions =
     foldl (\<lambda>acc q. case map_of answerMap (qid q) of
                       None \<Rightarrow> acc
                     | Some selected \<Rightarrow> acc + (if answer q = selected then 1 else 0))
       0 answeredQuestions"

fun findIndex :: "('a \<Rightarrow> bool) \<Rightarrow> 'a list \<Rightarrow> nat option" where
  "findIndex P [] = None"
| "findIndex P (x # xs) = (if P x then Some 0 else map_option Suc (findIndex P xs))"

text \<open>Lines 207 to 217: the entry of the same name is replaced, kept, or a new one pushed.\<close>

definition isFaster :: "number \<Rightarrow> number option \<Rightarrow> entry \<Rightarrow> bool" where
  "isFaster sc t current \<longleftrightarrow>
     sc = score current \<and>
     (case (t, totalTime current) of (Some x, Some y) \<Rightarrow> x < y | _ \<Rightarrow> False)"

definition mergeEntry :: "entry list \<Rightarrow> entry \<Rightarrow> number option \<Rightarrow> entry list" where
  "mergeEntry leaderboard newEntry t =
     (case findIndex (\<lambda>e. name e = name newEntry) leaderboard of
        Some existingIndex \<Rightarrow>
          (let current = leaderboard ! existingIndex;
               isBetterScore = score newEntry > score current
           in if isBetterScore \<or> isFaster (score newEntry) t current
              then leaderboard[existingIndex := newEntry]
              else leaderboard)
      | None \<Rightarrow> leaderboard @ [newEntry])"


datatype error_message = NameRequired | AnswersMissing | UnknownQuestion | BadFormat

datatype response =
    Ok200 number number "entry list"
  | Bad400 error_message

fun truthy :: "jsval \<Rightarrow> bool" where
  "truthy JUndefined = False"
| "truthy JNull = False"
| "truthy (JBool b) = b"
| "truthy (JNum n) = (n \<noteq> 0)"
| "truthy (JStr s) = (s \<noteq> [])"
| "truthy (JArr xs) = True"
| "truthy (JObj ps) = True"

text \<open>
  \<open>sanitizeName(payload.playerName || '')\<close>: a value that is not a string has no
  \<open>replace\<close> method, the call throws and the handler answers 400 from its \<open>catch\<close>.
\<close>

definition payloadName :: "jsval \<Rightarrow> js_string option" where
  "payloadName v =
     (if truthy v then (case v of JStr s \<Rightarrow> Some (sanitizeName s) | _ \<Rightarrow> None)
      else Some (sanitizeName []))"

text \<open>
  The handler of \<open>POST /api/submit\<close>. \<open>body\<close> is the parsed request body (\<open>None\<close> when
  \<open>JSON.parse\<close> throws), \<open>leaderboard\<close> the content of the leaderboard file, \<open>now\<close> the
  reading of the clock. The result is the response and the content of the file afterwards.
  Reading a property of \<open>null\<close> throws, and every exception ends in the \<open>catch\<close> that
  answers 400. The file is read and written on the last path only.
\<close>

definition scoreAndStore ::
  "question list \<Rightarrow> entry list \<Rightarrow> js_string \<Rightarrow> answer_map \<Rightarrow> number option \<Rightarrow> int
     \<Rightarrow> response \<times> entry list" where
  "scoreAndStore questions leaderboard nm m t now =
     (let answered = map (\<lambda>kv. questionMap questions (fst kv)) m
      in if None \<in> set answered then (Bad400 UnknownQuestion, leaderboard)
         else (let answeredQuestions = map the answered;
                   totalQs = of_nat (length answeredQuestions);
                   sc = computeScore m answeredQuestions;
                   newEntry = \<lparr>name = nm, score = sc, totalQuestions = totalQs,
                     totalTime = map_option toFixed2 t, completedAt = now\<rparr>;
                   ranked = sortLeaderboard (mergeEntry leaderboard newEntry t)
               in (Ok200 sc totalQs ranked, ranked)))"

definition postSubmit ::
  "question list \<Rightarrow> entry list \<Rightarrow> jsval option \<Rightarrow> int \<Rightarrow> response \<times> entry list" where
  "postSubmit questions leaderboard body now =
     (case body of
        None \<Rightarrow> (Bad400 BadFormat, leaderboard)
      | Some JNull \<Rightarrow> (Bad400 BadFormat, leaderboard)
      | Some JUndefined \<Rightarrow> (Bad400 BadFormat, leaderboard)
      | Some payload \<Rightarrow>
          (case payloadName (getProp payload ''playerName'') of
             None \<Rightarrow> (Bad400 BadFormat, leaderboard)
           | Some nm \<Rightarrow>
               (let answerMap = normalizeAnswers questions (getProp payload ''answers'');
                    t = payloadTime (getProp payload ''totalTime'')
                in if nm = [] then (Bad400 NameRequired, leaderboard)
                   else (case answerMap of
                           None \<Rightarrow> (Bad400 AnswersMissing, leaderboard)
                         | Some m \<Rightarrow>
                             if m = [] then (Bad400 AnswersMissing, leaderboard)
                             else scoreAndStore questions leaderboard nm m t now))))"

definition getLeaderboard :: "entry list \<Rightarrow> entry list" where
  "getLeaderboard leaderboard = sortLeaderboard leaderboard"

text \<open>The entry that the handler builds from a validated submission.\<close>

definition submittedEntry ::
  "js_string \<Rightarrow> number \<Rightarrow> number \<Rightarrow> number option \<Rightarrow> int \<Rightarrow> entry" where
  "submittedEntry nm sc tq t now =
     \<lparr>name = nm, score = sc, totalQuestions = tq, totalTime = map_option toFixed2 t,
      completedAt = now\<rparr>"


subsection \<open>The ranking in words\<close>




section \<open>GET /api/quiz\<close>

text \<open>
  \<open>Number(value)\<close> is a built-in: the conversion is a parameter of the model, and its
  result is one of the three non-finite values or a finite number.
\<close>

datatype js_number = NaN | PosInfinity | NegInfinity | Finite number








section \<open>The session of the client\<close>

text \<open>
  The state object of the client and the three properties of the two navigation buttons that
  \<open>updateNavigationButtons\<close> writes. A disabled button does not deliver its click. The
  rendering of texts, choices and progress is left out.
\<close>

datatype feedback = Feedback bool "js_string option"

record quiz_state =
  originalQuestions :: "question list"
  questions :: "question list"
  answers :: "nat option list"
  feedbacks :: "feedback option list"
  currentIndex :: nat
  startTime :: "int option"
  timerInterval :: bool
  prevDisabled :: bool
  nextDisabled :: bool
  nextShowsResult :: bool










section \<open>Example data\<close>

definition exampleBank :: "question list" where
  "exampleBank =
     [\<lparr>qid = 1, qtext = [0x51, 0x31], choices = [[0x61], [0x62], [0x63]], answer = 1\<rparr>,
      \<lparr>qid = 2, qtext = [0x51, 0x32], choices = [[0x61], [0x62]], answer = 0\<rparr>,
      \<lparr>qid = 3, qtext = [0x51, 0x33], choices = [[0x61], [0x62], [0x63]], answer = 2\<rparr>]"

definition answerObject :: "number \<Rightarrow> number \<Rightarrow> jsval" where
  "answerObject q c = JObj [(''questionId'', JNum q), (''choiceIndex'', JNum c)]"

definition submission :: "js_string \<Rightarrow> jsval list \<Rightarrow> jsval \<Rightarrow> jsval" where
  "submission nm as t =
     JObj [(''playerName'', JStr nm), (''answers'', JArr as), (''totalTime'', t)]"

definition allCorrect :: "jsval list" where
  "allCorrect = [answerObject 1 1, answerObject 2 0, answerObject 3 2]"

text \<open>\<open>"  Ann \\t Lee "\<close> and \<open>"Ann Lee"\<close>.\<close>

definition paddedName :: js_string where
  "paddedName = [0x20, 0x20, 0x41, 0x6E, 0x6E, 0x20, 0x09, 0x20, 0x4C, 0x65, 0x65, 0x20]"

definition cleanName :: js_string where
  "cleanName = [0x41, 0x6E, 0x6E, 0x20, 0x4C, 0x65, 0x65]"



definition nameA :: js_string where
  "nameA = [0x41]"

definition entryA :: "number \<Rightarrow> number option \<Rightarrow> int \<Rightarrow> entry" where
  "entryA sc t stamp = \<lparr>name = nameA, score = sc, totalQuestions = 3, totalTime = t,
     completedAt = stamp\<rparr>"

definition nameB :: js_string where
  "nameB = [0x42]"

definition entryB :: "number \<Rightarrow> number option \<Rightarrow> int \<Rightarrow> entry" where
  "entryB sc t stamp = \<lparr>name = nameB, score = sc, totalQuestions = 3, totalTime = t,
     completedAt = stamp\<rparr>"



section \<open>The merge rule\<close>

lemma findIndex_None: "findIndex P xs = None \<longleftrightarrow> (\<forall>x\<in>set xs. \<not> P x)"
  by (induction xs) auto

lemma findIndex_Some:
  "findIndex P xs = Some i \<longleftrightarrow> i < length xs \<and> P (xs ! i) \<and> (\<forall>j<i. \<not> P (xs ! j))"
proof (induction xs arbitrary: i)
  case Nil
  then show ?case by simp
next
  case (Cons x xs)
  show ?case
  proof (cases "P x")
    case True
    have "(\<forall>j<i. \<not> P ((x # xs) ! j)) \<longleftrightarrow> i = 0"
      using True by (cases i) auto
    with True show ?thesis by auto
  next
    case False
    show ?thesis
    proof (cases i)
      case 0
      with False show ?thesis by auto
    next
      case (Suc k)
      have "(\<forall>j<Suc k. \<not> P ((x # xs) ! j)) \<longleftrightarrow> (\<forall>j<k. \<not> P (xs ! j))"
        using False by (auto simp: less_Suc_eq_0_disj)
      with Suc False Cons.IH [of k] show ?thesis by auto
    qed
  qed
qed

lemma scoreAndStore_Ok200:
  assumes "scoreAndStore bank lb nm m t now = (Ok200 sc tq board, store')"
  shows "store' = sortLeaderboard (mergeEntry lb (submittedEntry nm sc tq t now) t)"
    and "board = store'"
    and "tq = of_nat (length m)"
    and "None \<notin> set (map (\<lambda>kv. questionMap bank (fst kv)) m)"
    and "sc = computeScore m (map (\<lambda>kv. the (questionMap bank (fst kv))) m)"
  using assms
  by (auto simp: scoreAndStore_def Let_def submittedEntry_def comp_def split: if_splits)

lemma postSubmit_Ok200:
  assumes "postSubmit bank lb body now = (Ok200 sc tq board, store')"
  obtains payload nm m where "body = Some payload"
    and "payloadName (getProp payload ''playerName'') = Some nm" and "nm \<noteq> []"
    and "normalizeAnswers bank (getProp payload ''answers'') = Some m" and "m \<noteq> []"
    and "scoreAndStore bank lb nm m (payloadTime (getProp payload ''totalTime'')) now
          = (Ok200 sc tq board, store')"
  using assms
  by (auto simp: postSubmit_def Let_def split: option.splits jsval.splits if_splits)

lemma mergeEntry_absent:
  "\<forall>e\<in>set lb. name e \<noteq> name new \<Longrightarrow> mergeEntry lb new t = lb @ [new]"
  by (simp add: mergeEntry_def findIndex_None [THEN iffD2])

lemma mergeEntry_present:
  assumes "i < length lb" "name (lb ! i) = name new" "\<forall>j<i. name (lb ! j) \<noteq> name new"
  shows "mergeEntry lb new t =
     (if score new > score (lb ! i) \<or>
         (score new = score (lb ! i) \<and> (\<exists>x y. t = Some x \<and> totalTime (lb ! i) = Some y \<and> x < y))
      then lb[i := new] else lb)"
proof -
  have "findIndex (\<lambda>e. name e = name new) lb = Some i"
    using assms by (simp add: findIndex_Some)
  then show ?thesis
    by (auto simp: mergeEntry_def Let_def isFaster_def split: option.splits)
qed

text \<open>
  Claim C1. A submission that the handler accepts, under the sanitized name \<open>N\<close> with score
  \<open>S\<close> and time \<open>T\<close> (the \<open>totalTime\<close> of the payload when it is a number that is not
  negative, \<open>null\<close> otherwise), writes the ranked result of the merge. When no stored entry
  is named \<open>N\<close> the new entry is appended. Otherwise, with \<open>current\<close> the first stored
  entry named \<open>N\<close>, the new entry takes its place if and only if \<open>S > current.score\<close>, or
  \<open>S = current.score\<close> and both times are numbers and \<open>T < current.totalTime\<close>; in every
  other case the list is left as it is.
\<close>

theorem submit_merge_rule:
  assumes "postSubmit bank lb (Some payload) now = (Ok200 S tq board, store')"
  shows "\<exists>N new.
      payloadName (getProp payload ''playerName'') = Some N \<and>
      new = \<lparr>name = N, score = S, totalQuestions = tq,
             totalTime = map_option toFixed2 (payloadTime (getProp payload ''totalTime'')),
             completedAt = now\<rparr> \<and>
      store' = sortLeaderboard (mergeEntry lb new (payloadTime (getProp payload ''totalTime''))) \<and>
      ((\<forall>e\<in>set lb. name e \<noteq> N) \<longrightarrow>
         mergeEntry lb new (payloadTime (getProp payload ''totalTime'')) = lb @ [new]) \<and>
      (\<forall>i. i < length lb \<and> name (lb ! i) = N \<and> (\<forall>j<i. name (lb ! j) \<noteq> N) \<longrightarrow>
         mergeEntry lb new (payloadTime (getProp payload ''totalTime'')) =
           (if S > score (lb ! i) \<or>
               (S = score (lb ! i) \<and>
                (\<exists>x y. payloadTime (getProp payload ''totalTime'') = Some x \<and>
                       totalTime (lb ! i) = Some y \<and> x < y))
            then lb[i := new] else lb))"
proof -
  let ?T = "payloadTime (getProp payload ''totalTime'')"
  from assms obtain nm m where
    nm: "payloadName (getProp payload ''playerName'') = Some nm" and
    st: "scoreAndStore bank lb nm m ?T now = (Ok200 S tq board, store')"
    by (elim postSubmit_Ok200) auto
  let ?new = "submittedEntry nm S tq ?T now"
  have 1: "store' = sortLeaderboard (mergeEntry lb ?new ?T)"
    using scoreAndStore_Ok200(1) [OF st] .
  have 2: "(\<forall>e\<in>set lb. name e \<noteq> nm) \<longrightarrow> mergeEntry lb ?new ?T = lb @ [?new]"
    using mergeEntry_absent [of lb ?new ?T] by (simp add: submittedEntry_def)
  have 3: "\<forall>i. i < length lb \<and> name (lb ! i) = nm \<and> (\<forall>j<i. name (lb ! j) \<noteq> nm) \<longrightarrow>
         mergeEntry lb ?new ?T =
           (if S > score (lb ! i) \<or>
               (S = score (lb ! i) \<and>
                (\<exists>x y. ?T = Some x \<and> totalTime (lb ! i) = Some y \<and> x < y))
            then lb[i := ?new] else lb)"
  proof (intro allI impI)
    fix i
    assume "i < length lb \<and> name (lb ! i) = nm \<and> (\<forall>j<i. name (lb ! j) \<noteq> nm)"
    then show "mergeEntry lb ?new ?T =
           (if S > score (lb ! i) \<or>
               (S = score (lb ! i) \<and>
                (\<exists>x y. ?T = Some x \<and> totalTime (lb ! i) = Some y \<and> x < y))
            then lb[i := ?new] else lb)"
      using mergeEntry_present [of i lb ?new ?T] by (simp add: submittedEntry_def)
  qed
  from nm 1 2 3 show ?thesis
    unfolding submittedEntry_def by blast
qed

theorem submit_merge_rule_witness:
  "postSubmit exampleBank [entryA 3 (Some 40) 1000]
     (Some (submission nameA allCorrect (JNum 35))) 2000
   = (Ok200 3 3 [entryA 3 (Some 35) 2000], [entryA 3 (Some 35) 2000]) \<and>
   mergeEntry [entryA 3 (Some 40) 1000] (entryA 3 (Some 35) 2000) (Some 35)
   = [entryA 3 (Some 35) 2000]"
proof -
  have ok: "postSubmit exampleBank [entryA 3 (Some 40) 1000]
     (Some (submission nameA allCorrect (JNum 35))) 2000
   = (Ok200 3 3 [entryA 3 (Some 35) 2000], [entryA 3 (Some 35) 2000])"
    by code_simp
  have nm: "payloadName (getProp (submission nameA allCorrect (JNum 35)) ''playerName'') = Some nameA"
    by code_simp
  have t: "payloadTime (getProp (submission nameA allCorrect (JNum 35)) ''totalTime'') = Some 35"
    by code_simp
  have tf: "toFixed2 35 = 35"
    by code_simp
  from submit_merge_rule [OF ok, unfolded nm t option.map tf]
  obtain new where new: "new = \<lparr>name = nameA, score = 3, totalQuestions = 3,
             totalTime = Some 35, completedAt = 2000\<rparr>"
    and rule: "\<forall>i. i < length [entryA 3 (Some 40) 1000] \<and>
           name ([entryA 3 (Some 40) 1000] ! i) = nameA \<and>
           (\<forall>j<i. name ([entryA 3 (Some 40) 1000] ! j) \<noteq> nameA) \<longrightarrow>
         mergeEntry [entryA 3 (Some 40) 1000] new (Some 35) =
           (if 3 > score ([entryA 3 (Some 40) 1000] ! i) \<or>
               (3 = score ([entryA 3 (Some 40) 1000] ! i) \<and>
                (\<exists>x y. Some 35 = Some x \<and>
                       totalTime ([entryA 3 (Some 40) 1000] ! i) = Some y \<and> x < y))
            then [entryA 3 (Some 40) 1000][i := new] else [entryA 3 (Some 40) 1000])"
    by blast
  have "mergeEntry [entryA 3 (Some 40) 1000] new (Some 35) = [new]"
    using rule [rule_format, of 0] by (simp add: entryA_def)
  moreover have "new = entryA 3 (Some 35) 2000"
    by (simp add: new entryA_def)
  ultimately show ?thesis
    using ok by simp
qed

section \<open>Sorting with the comparator\<close>

lemma mset_insertSorted: "mset (insertSorted cmp x ys) = add_mset x (mset ys)"
  by (induction ys) auto


lemma mset_arraySort: "mset (arraySort cmp xs) = mset xs"
  unfolding arraySort_def by (induction xs) (auto simp: mset_insertSorted)

lemma set_arraySort: "set (arraySort cmp xs) = set xs"
  using mset_arraySort [of cmp xs] by (metis set_mset_mset)
















lemma set_sortLeaderboard: "set (sortLeaderboard es) \<subseteq> set es"
  unfolding sortLeaderboard_def using set_take_subset set_arraySort by metis



section \<open>The stored leaderboard stays ranked\<close>


lemma set_mergeEntry: "set (mergeEntry lb new t) \<subseteq> insert new (set lb)"
proof (cases "findIndex (\<lambda>e. name e = name new) lb")
  case None
  then show ?thesis by (simp add: mergeEntry_def)
next
  case (Some i)
  then show ?thesis
    using set_update_subset_insert [of lb i new]
    by (auto simp: mergeEntry_def Let_def)
qed












section \<open>Entries without a time\<close>




section \<open>Accepted and rejected requests\<close>

lemma postSubmit_unfold:
  assumes "payload \<noteq> JNull" "payload \<noteq> JUndefined"
  shows "postSubmit bank lb (Some payload) now =
     (case payloadName (getProp payload ''playerName'') of
        None \<Rightarrow> (Bad400 BadFormat, lb)
      | Some nm \<Rightarrow>
          if nm = [] then (Bad400 NameRequired, lb)
          else (case normalizeAnswers bank (getProp payload ''answers'') of
                  None \<Rightarrow> (Bad400 AnswersMissing, lb)
                | Some m \<Rightarrow>
                    if m = [] then (Bad400 AnswersMissing, lb)
                    else scoreAndStore bank lb nm m
                           (payloadTime (getProp payload ''totalTime'')) now))"
  using assms by (cases payload) (simp_all add: postSubmit_def Let_def split: option.split)

lemma scoreAndStore_cases:
  obtains (unknown) "\<And>lb now. scoreAndStore bank lb nm m t now = (Bad400 UnknownQuestion, lb)"
  | (stored) sc tq where
      "tq = of_nat (length m)"
      "sc = computeScore m (map (\<lambda>kv. the (questionMap bank (fst kv))) m)"
      "\<And>lb now. scoreAndStore bank lb nm m t now =
         (Ok200 sc tq (sortLeaderboard (mergeEntry lb (submittedEntry nm sc tq t now) t)),
          sortLeaderboard (mergeEntry lb (submittedEntry nm sc tq t now) t))"
proof (cases "None \<in> set (map (\<lambda>kv. questionMap bank (fst kv)) m)")
  case True
  then have "scoreAndStore bank lb nm m t now = (Bad400 UnknownQuestion, lb)" for lb now
    by (simp add: scoreAndStore_def)
  then show ?thesis by (rule unknown)
next
  case False
  then have "scoreAndStore bank lb nm m t now =
         (Ok200 (computeScore m (map (\<lambda>kv. the (questionMap bank (fst kv))) m)) (of_nat (length m))
            (sortLeaderboard (mergeEntry lb (submittedEntry nm
               (computeScore m (map (\<lambda>kv. the (questionMap bank (fst kv))) m))
               (of_nat (length m)) t now) t)),
          sortLeaderboard (mergeEntry lb (submittedEntry nm
               (computeScore m (map (\<lambda>kv. the (questionMap bank (fst kv))) m))
               (of_nat (length m)) t now) t))" for lb now
    by (simp add: scoreAndStore_def Let_def submittedEntry_def comp_def)
  then show ?thesis by (intro stored [OF refl refl])
qed

text \<open>Whether a request is accepted depends on the request and the bank alone.\<close>

lemma postSubmit_cases:
  obtains (rejected) msg where
      "\<And>lb now. postSubmit bank lb body now = (Bad400 msg, lb)"
  | (accepted) payload nm m sc tq where
      "body = Some payload"
      "payloadName (getProp payload ''playerName'') = Some nm" "nm \<noteq> []"
      "normalizeAnswers bank (getProp payload ''answers'') = Some m" "m \<noteq> []"
      "tq = of_nat (length m)"
      "sc = computeScore m (map (\<lambda>kv. the (questionMap bank (fst kv))) m)"
      "\<forall>kv\<in>set m. questionMap bank (fst kv) \<noteq> None"
      "\<And>lb now. postSubmit bank lb body now =
         (Ok200 sc tq (sortLeaderboard (mergeEntry lb
             (submittedEntry nm sc tq (payloadTime (getProp payload ''totalTime'')) now)
             (payloadTime (getProp payload ''totalTime'')))),
          sortLeaderboard (mergeEntry lb
             (submittedEntry nm sc tq (payloadTime (getProp payload ''totalTime'')) now)
             (payloadTime (getProp payload ''totalTime''))))"
proof (cases body)
  case None
  then have "postSubmit bank lb body now = (Bad400 BadFormat, lb)" for lb now
    by (simp add: postSubmit_def)
  then show ?thesis by (rule rejected)
next
  case (Some payload)
  let ?T = "payloadTime (getProp payload ''totalTime'')"
  show ?thesis
  proof (cases "payload = JNull \<or> payload = JUndefined")
    case True
    with Some have "postSubmit bank lb body now = (Bad400 BadFormat, lb)" for lb now
      by (auto simp: postSubmit_def)
    then show ?thesis by (rule rejected)
  next
    case False
    then have obj: "payload \<noteq> JNull" "payload \<noteq> JUndefined" by simp_all
    note unfold = postSubmit_unfold [OF obj, of bank]
    show ?thesis
    proof (cases "payloadName (getProp payload ''playerName'')")
      case None
      with Some have "postSubmit bank lb body now = (Bad400 BadFormat, lb)" for lb now
        by (simp add: unfold)
      then show ?thesis by (rule rejected)
    next
      case nm: (Some nm)
      show ?thesis
      proof (cases "nm = []")
        case True
        with Some nm have "postSubmit bank lb body now = (Bad400 NameRequired, lb)" for lb now
          by (simp add: unfold)
        then show ?thesis by (rule rejected)
      next
        case nonempty: False
        show ?thesis
        proof (cases "normalizeAnswers bank (getProp payload ''answers'')")
          case None
          with Some nm nonempty
          have "postSubmit bank lb body now = (Bad400 AnswersMissing, lb)" for lb now
            by (simp add: unfold)
          then show ?thesis by (rule rejected)
        next
          case m: (Some m)
          show ?thesis
          proof (cases "m = []")
            case True
            with Some nm nonempty m
            have "postSubmit bank lb body now = (Bad400 AnswersMissing, lb)" for lb now
              by (simp add: unfold)
            then show ?thesis by (rule rejected)
          next
            case m_ne: False
            with Some nm nonempty m
            have run: "postSubmit bank lb body now = scoreAndStore bank lb nm m ?T now" for lb now
              by (simp add: unfold)
            show ?thesis
            proof (cases "None \<in> set (map (\<lambda>kv. questionMap bank (fst kv)) m)")
              case True
              then have "postSubmit bank lb body now = (Bad400 UnknownQuestion, lb)" for lb now
                by (simp add: run scoreAndStore_def)
              then show ?thesis by (rule rejected)
            next
              case known: False
              then have all: "\<forall>kv\<in>set m. questionMap bank (fst kv) \<noteq> None"
                by (metis (mono_tags, lifting) image_eqI set_map)
              let ?sc = "computeScore m (map (\<lambda>kv. the (questionMap bank (fst kv))) m)"
              let ?tq = "of_nat (length m) :: number"
              have "postSubmit bank lb body now =
                 (Ok200 ?sc ?tq (sortLeaderboard (mergeEntry lb (submittedEntry nm ?sc ?tq ?T now) ?T)),
                  sortLeaderboard (mergeEntry lb (submittedEntry nm ?sc ?tq ?T now) ?T))" for lb now
                using known
                by (simp add: run scoreAndStore_def Let_def submittedEntry_def comp_def)
              with Some nm nonempty m m_ne all show ?thesis
                by (intro accepted [of payload nm m ?tq ?sc]) simp_all
            qed
          qed
        qed
      qed
    qed
  qed
qed

section \<open>Submitting twice\<close>













text \<open>
  A time that two-decimal rounding raises is below its own stored value: the same attempt
  replaces its own entry.
\<close>

lemma rounded_up_time_replaces:
  "snd (postSubmit exampleBank [] (Some (submission nameA allCorrect (JNum (511 / 256)))) 1000)
     = [entryA 3 (Some 2) 1000] \<and>
   snd (postSubmit exampleBank [entryA 3 (Some 2) 1000]
          (Some (submission nameA allCorrect (JNum (511 / 256)))) 2000)
     = [entryA 3 (Some 2) 2000]"
  by code_simp

section \<open>Validation of the answers\<close>

lemma normalizeEntry_cases:
  "normalizeEntry bank m e i = m \<or>
   (\<exists>p. entryPair bank i e = Some p \<and> fst p \<notin> set (map fst m) \<and>
        fst p \<in> questionIdSet bank \<and> normalizeEntry bank m e i = m @ [p])"
proof (cases "objectEntry e")
  case (Some p)
  then show ?thesis
    by (cases p) (auto simp: normalizeEntry_def entryPair_def mapHas_def)
next
  case None
  then show ?thesis
    by (cases e) (auto simp: normalizeEntry_def entryPair_def mapHas_def Let_def)
qed

lemma length_normalizeEntry: "length (normalizeEntry bank m e i) \<le> Suc (length m)"
  using normalizeEntry_cases [of bank m e i] by auto

lemma keys_normalizeEntry: "set (map fst m) \<subseteq> set (map fst (normalizeEntry bank m e i))"
  using normalizeEntry_cases [of bank m e i] by auto

lemma distinct_normalizeEntry:
  "distinct (map fst m) \<Longrightarrow> distinct (map fst (normalizeEntry bank m e i))"
  using normalizeEntry_cases [of bank m e i] by auto

lemma length_forEachEntry: "length (forEachEntry bank es i m) \<le> length m + length es"
proof (induction es arbitrary: i m)
  case Nil
  then show ?case by simp
next
  case (Cons e es)
  have "length (forEachEntry bank es (Suc i) (normalizeEntry bank m e i))
      \<le> length (normalizeEntry bank m e i) + length es"
    by (rule Cons.IH)
  with length_normalizeEntry [of bank m e i] show ?case by simp
qed

lemma keys_forEachEntry: "set (map fst m) \<subseteq> set (map fst (forEachEntry bank es i m))"
proof (induction es arbitrary: i m)
  case Nil
  then show ?case by simp
next
  case (Cons e es)
  from keys_normalizeEntry [of m bank e i] Cons.IH [of "normalizeEntry bank m e i" "Suc i"]
  show ?case by auto
qed

lemma distinct_forEachEntry:
  "distinct (map fst m) \<Longrightarrow> distinct (map fst (forEachEntry bank es i m))"
  by (induction es arbitrary: i m) (simp_all add: distinct_normalizeEntry)

text \<open>An entry that carries a question id is stored under that id or not at all.\<close>

lemma normalizeEntry_carried:
  assumes "entryQuestionId e = Some q"
  shows "normalizeEntry bank m e i = m \<or>
     (\<exists>c. normalizeEntry bank m e i = m @ [(q, c)] \<and> q \<in> questionIdSet bank \<and>
          q \<notin> set (map fst m))"
proof -
  from assms obtain props where e: "e = JObj props" "getProp e ''questionId'' = JNum q"
    by (auto simp: entryQuestionId_def split: jsval.splits)
  show ?thesis
  proof (cases "objectEntry e")
    case None
    with e show ?thesis by (simp add: normalizeEntry_def)
  next
    case (Some p)
    with e have "fst p = q"
      by (auto simp: objectEntry_def split: jsval.splits)
    with Some show ?thesis
      by (cases p) (auto simp: normalizeEntry_def mapHas_def)
  qed
qed

lemma forEachEntry_skipped:
  assumes "e \<in> set es" "\<And>m i. normalizeEntry bank m e i = m"
  shows "length (forEachEntry bank es i m) < length m + length es"
  using assms(1)
proof (induction es arbitrary: i m)
  case Nil
  then show ?case by simp
next
  case (Cons x xs)
  show ?case
  proof (cases "x = e")
    case True
    then have "forEachEntry bank (x # xs) i m = forEachEntry bank xs (Suc i) m"
      by (simp add: assms(2))
    with length_forEachEntry [of bank xs "Suc i" m] show ?thesis by simp
  next
    case False
    with Cons.prems have "e \<in> set xs" by simp
    then have "length (forEachEntry bank xs (Suc i) (normalizeEntry bank m x i))
        < length (normalizeEntry bank m x i) + length xs"
      by (rule Cons.IH)
    with length_normalizeEntry [of bank m x i] show ?thesis by simp
  qed
qed

lemma forEachEntry_key_present:
  assumes "e \<in> set es" "entryQuestionId e = Some q" "q \<in> set (map fst m)"
  shows "length (forEachEntry bank es i m) < length m + length es"
  using assms(1,3)
proof (induction es arbitrary: i m)
  case Nil
  then show ?case by simp
next
  case (Cons x xs)
  show ?case
  proof (cases "x = e")
    case True
    with normalizeEntry_carried [OF assms(2), of bank m i] Cons.prems(2)
    have "normalizeEntry bank m x i = m" by auto
    then have "forEachEntry bank (x # xs) i m = forEachEntry bank xs (Suc i) m" by simp
    with length_forEachEntry [of bank xs "Suc i" m] show ?thesis by simp
  next
    case False
    with Cons.prems have "e \<in> set xs" by simp
    moreover have "q \<in> set (map fst (normalizeEntry bank m x i))"
      using Cons.prems(2) keys_normalizeEntry by blast
    ultimately have "length (forEachEntry bank xs (Suc i) (normalizeEntry bank m x i))
        < length (normalizeEntry bank m x i) + length xs"
      by (rule Cons.IH)
    with length_normalizeEntry [of bank m x i] show ?thesis by simp
  qed
qed

lemma forEachEntry_duplicate:
  assumes "a < b" "b < length es"
    and "entryQuestionId (es ! a) = Some q" "entryQuestionId (es ! b) = Some q"
  shows "length (forEachEntry bank es i m) < length m + length es"
  using assms
proof (induction es arbitrary: a b i m)
  case Nil
  then show ?case by simp
next
  case (Cons x xs)
  from Cons.prems(1) obtain b' where b: "b = Suc b'" by (cases b) auto
  with Cons.prems have b': "b' < length xs" "entryQuestionId (xs ! b') = Some q" by simp_all
  let ?m = "normalizeEntry bank m x i"
  show ?case
  proof (cases a)
    case 0
    with Cons.prems have x: "entryQuestionId x = Some q" by simp
    show ?thesis
    proof (cases "?m = m")
      case True
      with length_forEachEntry [of bank xs "Suc i" m] show ?thesis by simp
    next
      case False
      with normalizeEntry_carried [OF x, of bank m i] have "q \<in> set (map fst ?m)" by auto
      with b' have "length (forEachEntry bank xs (Suc i) ?m) < length ?m + length xs"
        by (intro forEachEntry_key_present [of "xs ! b'"]) simp_all
      with length_normalizeEntry [of bank m x i] show ?thesis by simp
    qed
  next
    case (Suc a')
    with Cons.prems b have "a' < b'" "entryQuestionId (xs ! a') = Some q" by simp_all
    with b' have "length (forEachEntry bank xs (Suc i) ?m) < length ?m + length xs"
      by (intro Cons.IH [of a' b']) simp_all
    with length_normalizeEntry [of bank m x i] show ?thesis by simp
  qed
qed

lemma normalizeAnswers_Some:
  assumes "normalizeAnswers bank raw = Some m"
  obtains es where "raw = JArr es" "es \<noteq> []" "m = forEachEntry bank es 0 []"
    "length m = length es"
  using assms
  by (cases raw) (auto simp: normalizeAnswers_def Let_def split: if_splits)

text \<open>
  Claim C3. A request whose \<open>answers\<close> array is empty, or has an entry that carries a
  question id that is not in the bank, or has two entries that carry the same question id, or
  yields a number of distinct valid entries that differs from the number of submitted entries,
  is answered with status 400, and the stored leaderboard is left as it was: no score is
  computed and nothing is written.
\<close>

theorem invalid_answers_rejected:
  assumes "getProp payload ''answers'' = JArr es"
    and "es = [] \<or>
         (\<exists>e\<in>set es. \<exists>q. entryQuestionId e = Some q \<and> q \<notin> questionIdSet bank) \<or>
         (\<exists>a b q. a < b \<and> b < length es \<and>
            entryQuestionId (es ! a) = Some q \<and> entryQuestionId (es ! b) = Some q) \<or>
         card (set (map fst (forEachEntry bank es 0 []))) \<noteq> length es"
  shows "\<exists>msg. postSubmit bank lb (Some payload) now = (Bad400 msg, lb)"
proof (cases rule: postSubmit_cases [of bank "Some payload"])
  case (rejected msg)
  then show ?thesis by blast
next
  case (accepted payload' nm m sc tq)
  then have "normalizeAnswers bank (getProp payload ''answers'') = Some m" by simp
  then have m: "es \<noteq> []" "m = forEachEntry bank es 0 []" "length m = length es"
    using assms(1) by (auto elim: normalizeAnswers_Some)
  have full: "length (forEachEntry bank es 0 []) = length es"
    using m by simp
  have "distinct (map fst (forEachEntry bank es 0 []))"
    by (rule distinct_forEachEntry) simp
  then have card: "card (set (map fst (forEachEntry bank es 0 []))) = length es"
    using m by (metis distinct_card length_map)
  from assms(2) m(1) card consider
      e q where "e \<in> set es" "entryQuestionId e = Some q" "q \<notin> questionIdSet bank"
    | a b q where "a < b" "b < length es"
        "entryQuestionId (es ! a) = Some q" "entryQuestionId (es ! b) = Some q"
    by blast
  then have "length (forEachEntry bank es 0 []) < length es"
  proof cases
    case 1
    have "normalizeEntry bank m' e i = m'" for m' i
      using normalizeEntry_carried [OF 1(2), of bank m' i] 1(3) by auto
    then show ?thesis
      using forEachEntry_skipped [OF 1(1), of bank 0 "[]"] by simp
  next
    case 2
    then show ?thesis
      using forEachEntry_duplicate [of a b es q bank 0 "[]"] by simp
  qed
  with full have False by simp
  then show ?thesis ..
qed

theorem invalid_answers_rejected_witness:
  "getProp (submission nameA [answerObject 1 1, answerObject 1 0] (JNum 35)) ''answers''
     = JArr [answerObject 1 1, answerObject 1 0] \<and>
   entryQuestionId ([answerObject 1 1, answerObject 1 0] ! 0) = Some 1 \<and>
   entryQuestionId ([answerObject 1 1, answerObject 1 0] ! 1) = Some 1 \<and>
   postSubmit exampleBank [entryB 3 (Some 40) 1000]
     (Some (submission nameA [answerObject 1 1, answerObject 1 0] (JNum 35))) 2000
     = (Bad400 AnswersMissing, [entryB 3 (Some 40) 1000])"
proof -
  let ?es = "[answerObject 1 1, answerObject 1 0]"
  let ?p = "submission nameA ?es (JNum 35)"
  have g: "getProp ?p ''answers'' = JArr ?es" by code_simp
  have a: "entryQuestionId (?es ! 0) = Some 1" by code_simp
  have b: "entryQuestionId (?es ! 1) = Some 1" by code_simp
  have "?es = [] \<or>
         (\<exists>e\<in>set ?es. \<exists>q. entryQuestionId e = Some q \<and> q \<notin> questionIdSet exampleBank) \<or>
         (\<exists>a b q. a < b \<and> b < length ?es \<and>
            entryQuestionId (?es ! a) = Some q \<and> entryQuestionId (?es ! b) = Some q) \<or>
         card (set (map fst (forEachEntry exampleBank ?es 0 []))) \<noteq> length ?es"
    using a b by (intro disjI2 disjI1 exI [of _ 0] exI [of _ 1] exI [of _ "1::number"]) simp
  from invalid_answers_rejected [OF g this, of "[entryB 3 (Some 40) 1000]" 2000]
  obtain msg where r: "postSubmit exampleBank [entryB 3 (Some 40) 1000] (Some ?p) 2000
      = (Bad400 msg, [entryB 3 (Some 40) 1000])" by blast
  have "fst (postSubmit exampleBank [entryB 3 (Some 40) 1000] (Some ?p) 2000)
      = Bad400 AnswersMissing" by code_simp
  with r have "msg = AnswersMissing" by simp
  with r g a b show ?thesis by simp
qed

section \<open>The score\<close>

text \<open>When every entry is stored, the map is the list of the pairs the entries stand for.\<close>

lemma forEachEntry_full_aux:
  assumes "length (forEachEntry bank es i m) = length m + length es"
  shows "forEachEntry bank es i m
           = m @ map (\<lambda>ie. the (entryPair bank (fst ie) (snd ie))) (enumerate i es) \<and>
         (\<forall>ie\<in>set (enumerate i es). entryPair bank (fst ie) (snd ie) \<noteq> None)"
  using assms
proof (induction es arbitrary: i m)
  case Nil
  then show ?case by simp
next
  case (Cons e es)
  let ?m = "normalizeEntry bank m e i"
  have "length (forEachEntry bank es (Suc i) ?m) \<le> length ?m + length es"
    by (rule length_forEachEntry)
  moreover have "length (forEachEntry bank es (Suc i) ?m) = Suc (length m + length es)"
    using Cons.prems by simp
  ultimately have "length ?m \<noteq> length m"
    by linarith
  with normalizeEntry_cases [of bank m e i] obtain p where
    p: "entryPair bank i e = Some p" "?m = m @ [p]" by auto
  with Cons.prems have "length (forEachEntry bank es (Suc i) ?m) = length ?m + length es"
    by simp
  from Cons.IH [OF this] p show ?case by simp
qed

lemma forEachEntry_full:
  assumes "length (forEachEntry bank es i m) = length m + length es"
  shows "forEachEntry bank es i m
           = m @ map (\<lambda>ie. the (entryPair bank (fst ie) (snd ie))) (enumerate i es)"
    and "\<forall>ie\<in>set (enumerate i es). entryPair bank (fst ie) (snd ie) \<noteq> None"
  using forEachEntry_full_aux [OF assms] by simp_all

lemma questionMap_qid: "questionMap bank k = Some q \<Longrightarrow> qid q = k"
  unfolding questionMap_def by (auto dest!: map_of_SomeD)

lemma foldl_count:
  "foldl (\<lambda>acc x. acc + (if P x then 1 else 0)) a xs = a + of_nat (length (filter P xs))"
  for a :: number
  by (induction xs arbitrary: a) simp_all

lemma computeScore_count:
  assumes "distinct (map fst m)" "\<forall>kv\<in>set m. questionMap bank (fst kv) \<noteq> None"
  shows "computeScore m (map (\<lambda>kv. the (questionMap bank (fst kv))) m)
     = of_nat (length (filter (awarded bank) m))"
proof -
  have step: "(case map_of m (qid (the (questionMap bank (fst kv)))) of
          None \<Rightarrow> acc
        | Some selected \<Rightarrow> acc + (if answer (the (questionMap bank (fst kv))) = selected then 1 else 0))
      = acc + (if awarded bank kv then 1 else 0)"
    if "kv \<in> set m" for kv and acc :: number
  proof -
    from that assms(2) obtain q where q: "questionMap bank (fst kv) = Some q" by auto
    then have "qid q = fst kv" by (rule questionMap_qid)
    moreover have "map_of m (fst kv) = Some (snd kv)"
      using that assms(1) by simp
    ultimately show ?thesis
      using q by (simp add: awarded_def)
  qed
  have "computeScore m (map (\<lambda>kv. the (questionMap bank (fst kv))) m)
      = foldl (\<lambda>acc kv. acc + (if awarded bank kv then 1 else 0)) 0 m"
    unfolding computeScore_def foldl_map
    by (rule foldl_cong) (simp_all add: step)
  then show ?thesis by (simp add: foldl_count)
qed

text \<open>
  Claim C4. For every accepted submission the returned score is the number of entries of the
  answers array whose choice is the answer index of the question they refer to, and the
  returned total is the number of entries of the array, whatever the size of the bank.
\<close>

theorem score_counts_correct_entries:
  assumes "postSubmit bank lb (Some payload) now = (Ok200 S tq board, st)"
  shows "\<exists>es. getProp payload ''answers'' = JArr es \<and>
           tq = of_nat (length es) \<and>
           S = of_nat (length (filter (entryAwarded bank) (enumerate 0 es)))"
proof (cases rule: postSubmit_cases [of bank "Some payload"])
  case (rejected msg)
  with assms show ?thesis by simp
next
  case (accepted payload' nm m sc tq')
  then have p: "payload' = payload" by simp
  from accepted(9) [of lb now] assms have eq: "S = sc" "tq = tq'" by simp_all
  from accepted(4) obtain es where es: "getProp payload ''answers'' = JArr es"
    "m = forEachEntry bank es 0 []" "length m = length es"
    unfolding p by (elim normalizeAnswers_Some) auto
  have full: "length (forEachEntry bank es 0 []) = length ([] :: answer_map) + length es"
    using es by simp
  note pairs = forEachEntry_full [OF full]
  have m: "m = map (\<lambda>ie. the (entryPair bank (fst ie) (snd ie))) (enumerate 0 es)"
    using pairs(1) es(2) by simp
  have dist: "distinct (map fst m)"
    unfolding es(2) by (rule distinct_forEachEntry) simp
  have "sc = of_nat (length (filter (awarded bank) m))"
    unfolding accepted(7) using dist accepted(8) by (rule computeScore_count)
  also have "filter (awarded bank) m
      = map (\<lambda>ie. the (entryPair bank (fst ie) (snd ie)))
          (filter (\<lambda>ie. awarded bank (the (entryPair bank (fst ie) (snd ie)))) (enumerate 0 es))"
    unfolding m by (simp add: filter_map comp_def)
  also have "filter (\<lambda>ie. awarded bank (the (entryPair bank (fst ie) (snd ie)))) (enumerate 0 es)
      = filter (entryAwarded bank) (enumerate 0 es)"
    using pairs(2) by (intro filter_cong) (auto simp: entryAwarded_def)
  finally have "sc = of_nat (length (filter (entryAwarded bank) (enumerate 0 es)))"
    by simp
  with es(1,3) eq accepted(6) show ?thesis by simp
qed

theorem score_counts_correct_entries_witness:
  "postSubmit exampleBank [] (Some (submission nameA [answerObject 1 1, answerObject 2 1] JNull)) 1000
     = (Ok200 1 2 [\<lparr>name = nameA, score = 1, totalQuestions = 2, totalTime = None,
                     completedAt = 1000\<rparr>],
        [\<lparr>name = nameA, score = 1, totalQuestions = 2, totalTime = None, completedAt = 1000\<rparr>]) \<and>
   length [answerObject 1 1, answerObject 2 1] = 2 \<and>
   length (filter (entryAwarded exampleBank) (enumerate 0 [answerObject 1 1, answerObject 2 1])) = 1 \<and>
   length exampleBank = 3"
proof -
  let ?es = "[answerObject 1 1, answerObject 2 1]"
  let ?p = "submission nameA ?es JNull"
  let ?e = "\<lparr>name = nameA, score = 1, totalQuestions = 2, totalTime = None, completedAt = 1000\<rparr>"
  have ok: "postSubmit exampleBank [] (Some ?p) 1000 = (Ok200 1 2 [?e], [?e])"
    by code_simp
  have g: "getProp ?p ''answers'' = JArr ?es" by code_simp
  from score_counts_correct_entries [OF ok] g
  have "(2 :: number) = of_nat (length ?es) \<and>
      (1 :: number) = of_nat (length (filter (entryAwarded exampleBank) (enumerate 0 ?es)))"
    by simp
  then have "length (filter (entryAwarded exampleBank) (enumerate 0 ?es)) = 1"
    by (metis of_nat_1 of_nat_eq_iff)
  moreover have "length exampleBank = 3" by (simp add: exampleBank_def)
  ultimately show ?thesis using ok by simp
qed

section \<open>Answers given by position\<close>

lemma forEachEntry_numbers:
  assumes "distinct (map qid bank)" "i + length cs \<le> length bank"
    and "set (map fst m) \<subseteq> qid ` set (take i bank)"
  shows "forEachEntry bank (map JNum cs) i m = m @ zip (map qid (drop i bank)) cs"
  using assms(2,3)
proof (induction cs arbitrary: i m)
  case Nil
  then show ?case by simp
next
  case (Cons c cs)
  then have i: "i < length bank" by simp
  have "qid (bank ! i) \<notin> qid ` set (take i bank)"
  proof
    assume "qid (bank ! i) \<in> qid ` set (take i bank)"
    then obtain k where k: "k < i" "qid (bank ! k) = qid (bank ! i)"
      using i by (auto simp: in_set_conv_nth)
    with assms(1) i have "k = i"
      using nth_eq_iff_index_eq [of "map qid bank" k i] by simp
    with k show False by simp
  qed
  with Cons.prems(2) have fresh: "\<not> mapHas m (qid (bank ! i))"
    by (auto simp: mapHas_def)
  have known: "qid (bank ! i) \<in> questionIdSet bank"
    using i by (simp add: questionIdSet_def)
  have step: "normalizeEntry bank m (JNum c) i = m @ [(qid (bank ! i), c)]"
    using i fresh known by (simp add: normalizeEntry_def objectEntry_def Let_def)
  have "set (map fst (m @ [(qid (bank ! i), c)])) \<subseteq> qid ` set (take (Suc i) bank)"
    using Cons.prems(2) i by (auto simp: take_Suc_conv_app_nth)
  moreover have "Suc i + length cs \<le> length bank"
    using Cons.prems(1) by simp
  ultimately have "forEachEntry bank (map JNum cs) (Suc i) (m @ [(qid (bank ! i), c)])
      = (m @ [(qid (bank ! i), c)]) @ zip (map qid (drop (Suc i) bank)) cs"
    by (intro Cons.IH)
  then show ?case
    using i by (simp add: step Cons_nth_drop_Suc [symmetric])
qed

text \<open>
  Claim C9. An entry of the answers array that is a bare number, at an index below the size of
  the bank and with the id of the bank question at that index not yet in the map, is stored as
  the choice for that question. An array of bare numbers that is not longer than a bank with
  unique ids is accepted whole, its numbers being the choices for the questions in bank order.
\<close>

theorem bare_numbers_are_positional:
  "(index < length bank \<and> \<not> mapHas m (qid (bank ! index)) \<longrightarrow>
      normalizeEntry bank m (JNum n) index = m @ [(qid (bank ! index), n)]) \<and>
   (distinct (map qid bank) \<and> cs \<noteq> [] \<and> length cs \<le> length bank \<longrightarrow>
      normalizeAnswers bank (JArr (map JNum cs)) = Some (zip (map qid bank) cs))"
proof (intro conjI impI)
  assume "index < length bank \<and> \<not> mapHas m (qid (bank ! index))"
  then show "normalizeEntry bank m (JNum n) index = m @ [(qid (bank ! index), n)]"
    by (simp add: normalizeEntry_def objectEntry_def Let_def questionIdSet_def)
next
  assume a: "distinct (map qid bank) \<and> cs \<noteq> [] \<and> length cs \<le> length bank"
  then have "forEachEntry bank (map JNum cs) 0 [] = [] @ zip (map qid (drop 0 bank)) cs"
    by (intro forEachEntry_numbers) simp_all
  with a show "normalizeAnswers bank (JArr (map JNum cs)) = Some (zip (map qid bank) cs)"
    by (simp add: normalizeAnswers_def)
qed

theorem bare_numbers_are_positional_witness:
  "normalizeEntry exampleBank [(1, 1)] (JNum 0) 1 = [(1, 1), (2, 0)] \<and>
   normalizeAnswers exampleBank (JArr (map JNum [1, 0])) = Some [(1, 1), (2, 0)] \<and>
   fst (postSubmit exampleBank [] (Some (submission nameA (map JNum [1, 0]) JNull)) 1000)
     = Ok200 2 2 [\<lparr>name = nameA, score = 2, totalQuestions = 2, totalTime = None,
                   completedAt = 1000\<rparr>]"
proof -
  have 1: "(1 :: nat) < length exampleBank \<and> \<not> mapHas [(1, 1)] (qid (exampleBank ! 1))"
    by code_simp
  have 2: "distinct (map qid exampleBank) \<and> [1, 0 :: number] \<noteq> [] \<and>
      length [1, 0 :: number] \<le> length exampleBank"
    by code_simp
  have q: "qid (exampleBank ! 1) = 2" "zip (map qid exampleBank) [1, 0 :: number] = [(1, 1), (2, 0)]"
    by code_simp+
  have 3: "fst (postSubmit exampleBank [] (Some (submission nameA (map JNum [1, 0]) JNull)) 1000)
     = Ok200 2 2 [\<lparr>name = nameA, score = 2, totalQuestions = 2, totalTime = None,
                   completedAt = 1000\<rparr>]"
    by code_simp
  from bare_numbers_are_positional [of 1 exampleBank "[(1, 1)]" 0 "[1, 0]"] 1 2
  have "normalizeEntry exampleBank [(1, 1)] (JNum 0) 1 = [(1, 1)] @ [(qid (exampleBank ! 1), 0)] \<and>
      normalizeAnswers exampleBank (JArr (map JNum [1, 0])) = Some (zip (map qid exampleBank) [1, 0])"
    by blast
  with q 3 show ?thesis by simp
qed

section \<open>Navigation of the client\<close>





section \<open>Selection of the questions\<close>













section \<open>The name of the player\<close>

lemma isWhitespace_space: "isWhitespace 0x20"
  by (simp add: isWhitespace_def)

lemma joinWords_Cons:
  "joinWords (w # ws) = w @ (if ws = [] then [] else 0x20 # joinWords ws)"
  by (cases ws) simp_all

lemma splitWords_nonempty: "\<not> isWhitespace c \<Longrightarrow> splitWords (c # cs) \<noteq> []"
  by (cases cs) (auto split: list.splits)

lemma splitWords_words:
  "w \<in> set (splitWords s) \<Longrightarrow> w \<noteq> [] \<and> (\<forall>c\<in>set w. \<not> isWhitespace c)"
proof (induction s arbitrary: w rule: splitWords.induct)
  case 1
  then show ?case by simp
next
  case (2 c)
  then show ?case by (auto split: if_splits)
next
  case (3 c d cs)
  show ?case
  proof (cases "isWhitespace c")
    case True
    with 3 show ?thesis by simp
  next
    case c: False
    show ?thesis
    proof (cases "isWhitespace d")
      case True
      with 3 c show ?thesis by auto
    next
      case d: False
      then obtain v vs where v: "splitWords (d # cs) = v # vs"
        using splitWords_nonempty [of d cs] by (cases "splitWords (d # cs)") auto
      from "3.IH"(3) [OF c d] v
      have old: "\<forall>u\<in>set (v # vs). u \<noteq> [] \<and> (\<forall>x\<in>set u. \<not> isWhitespace x)"
        by simp
      from "3.prems" c d v have "w = c # v \<or> w \<in> set vs" by simp
      with old c show ?thesis by auto
    qed
  qed
qed

lemma splitWords_Nil: "splitWords s = [] \<Longrightarrow> c \<in> set s \<Longrightarrow> isWhitespace c"
proof (induction s rule: splitWords.induct)
  case 1
  then show ?case by simp
next
  case (2 x)
  then show ?case by (auto split: if_splits)
next
  case (3 x d cs)
  then show ?case
    using splitWords_nonempty [of d cs]
    by (cases "isWhitespace x"; cases "isWhitespace d") (auto split: list.splits)
qed

lemma replaceWhitespace_words:
  "replaceWhitespace s = leadSpace s @ joinWords (splitWords s) @ trailSpace s"
proof (induction s rule: replaceWhitespace.induct)
  case 1
  then show ?case by (simp add: leadSpace_def trailSpace_def)
next
  case (2 c)
  then show ?case by (simp add: leadSpace_def trailSpace_def)
next
  case (3 c d cs)
  show ?case
  proof (cases "isWhitespace c")
    case c: True
    show ?thesis
    proof (cases "isWhitespace d")
      case True
      with c 3 show ?thesis by (simp add: leadSpace_def trailSpace_def)
    next
      case False
      with c 3 show ?thesis by (simp add: leadSpace_def trailSpace_def)
    qed
  next
    case c: False
    show ?thesis
    proof (cases "isWhitespace d")
      case True
      have "isWhitespace (last (d # cs))" if "splitWords (d # cs) = []"
        using splitWords_Nil [OF that, of "last (d # cs)"] by simp
      with True c 3 show ?thesis
        by (auto simp: leadSpace_def trailSpace_def joinWords_Cons)
    next
      case d: False
      then obtain v vs where v: "splitWords (d # cs) = v # vs"
        using splitWords_nonempty [of d cs] by (cases "splitWords (d # cs)") auto
      with c d 3 show ?thesis
        by (simp add: leadSpace_def trailSpace_def joinWords_Cons)
    qed
  qed
qed

lemma joinWords_ends:
  assumes "ws \<noteq> []" "\<forall>w\<in>set ws. w \<noteq> [] \<and> (\<forall>c\<in>set w. \<not> isWhitespace c)"
  shows "joinWords ws \<noteq> [] \<and> \<not> isWhitespace (hd (joinWords ws)) \<and>
         \<not> isWhitespace (last (joinWords ws))"
  using assms
proof (induction ws rule: joinWords.induct)
  case 1
  then show ?case by simp
next
  case (2 w)
  then show ?case by (cases w) (auto simp: last_in_set)
next
  case (3 w v ws)
  then have "joinWords (v # ws) \<noteq> [] \<and> \<not> isWhitespace (last (joinWords (v # ws)))"
    by simp
  moreover from 3 have "w \<noteq> [] \<and> \<not> isWhitespace (hd w)"
    by (cases w) auto
  ultimately show ?case by simp
qed

lemma trim_ends:
  assumes "a = [] \<or> a = [0x20]" "b = [] \<or> b = [0x20]"
    and "t = [] \<longrightarrow> b = []"
    and "t \<noteq> [] \<longrightarrow> \<not> isWhitespace (hd t) \<and> \<not> isWhitespace (last t)"
  shows "trim (a @ t @ b) = t"
proof (cases t)
  case Nil
  with assms show ?thesis by (auto simp: trim_def isWhitespace_space)
next
  case (Cons x xs)
  with assms(4) have x: "\<not> isWhitespace x" and l: "\<not> isWhitespace (last t)" by auto
  have "dropWhile isWhitespace (a @ t @ b) = t @ b"
    using assms(1) x Cons by (auto simp: isWhitespace_space)
  moreover have "dropWhile isWhitespace (rev (t @ b)) = rev t"
  proof -
    from Cons obtain y ys where r: "rev t = y # ys"
      by (cases "rev t") auto
    then have "y = last t"
      using hd_rev [of t] by simp
    with l have "dropWhile isWhitespace (y # ys) = y # ys" by simp
    then have "dropWhile isWhitespace (rev t) = rev t"
      unfolding r .
    with assms(2) show ?thesis by (auto simp: isWhitespace_space)
  qed
  ultimately show ?thesis by (simp add: trim_def)
qed

lemma trim_replaceWhitespace: "trim (replaceWhitespace s) = joinWords (splitWords s)"
proof -
  have "trim (leadSpace s @ joinWords (splitWords s) @ trailSpace s) = joinWords (splitWords s)"
  proof (rule trim_ends)
    show "leadSpace s = [] \<or> leadSpace s = [0x20]" by (simp add: leadSpace_def)
    show "trailSpace s = [] \<or> trailSpace s = [0x20]" by (simp add: trailSpace_def)
    show "joinWords (splitWords s) = [] \<longrightarrow> trailSpace s = []"
      using joinWords_ends [of "splitWords s"] splitWords_words [of _ s]
      by (auto simp: trailSpace_def)
    show "joinWords (splitWords s) \<noteq> [] \<longrightarrow>
        \<not> isWhitespace (hd (joinWords (splitWords s))) \<and>
        \<not> isWhitespace (last (joinWords (splitWords s)))"
      using joinWords_ends [of "splitWords s"] splitWords_words [of _ s]
      by (cases "splitWords s = []") auto
  qed
  then show ?thesis by (simp add: replaceWhitespace_words)
qed

lemma sanitizeName_words: "sanitizeName s = take 32 (joinWords (splitWords s))"
  by (simp add: sanitizeName_def trim_replaceWhitespace)

lemma payloadName_string: "payloadName (JStr s) = Some (sanitizeName s)"
  by (cases "s = []") (simp_all add: payloadName_def)

lemma set_sortedMerge:
  "set (sortLeaderboard (mergeEntry lb new t)) \<subseteq> insert new (set lb)"
  using set_sortLeaderboard [of "mergeEntry lb new t"] set_mergeEntry [of lb new t] by blast

text \<open>
  Claim C7. For a request whose \<open>playerName\<close> is a string, the name that the handler uses
  is the string with every run of whitespace collapsed to a single space and the whitespace
  at both ends removed, that is its words joined by single spaces, cut after 32 code units
  (the cut comes last). When that name is empty the request is answered with status 400 and
  the stored leaderboard is left as it was. When the request is accepted, the entry that is
  merged carries that name, and every entry of the written leaderboard was stored before or
  carries that name.
\<close>

theorem name_is_sanitized:
  assumes "getProp payload ''playerName'' = JStr s"
  shows "sanitizeName s = take 32 (joinWords (splitWords s)) \<and>
     length (sanitizeName s) \<le> 32 \<and>
     (sanitizeName s = [] \<longrightarrow>
        postSubmit bank lb (Some payload) now = (Bad400 NameRequired, lb)) \<and>
     (\<forall>S tq board st.
        postSubmit bank lb (Some payload) now = (Ok200 S tq board, st) \<longrightarrow>
        sanitizeName s \<noteq> [] \<and>
        st = sortLeaderboard (mergeEntry lb
               \<lparr>name = sanitizeName s, score = S, totalQuestions = tq,
                totalTime = map_option toFixed2 (payloadTime (getProp payload ''totalTime'')),
                completedAt = now\<rparr>
               (payloadTime (getProp payload ''totalTime''))) \<and>
        (\<forall>e\<in>set st. e \<in> set lb \<or> name e = sanitizeName s))"
proof (intro conjI allI impI)
  show "sanitizeName s = take 32 (joinWords (splitWords s))"
    by (rule sanitizeName_words)
  show "length (sanitizeName s) \<le> 32"
    by (simp add: sanitizeName_def)
  from assms have obj: "payload \<noteq> JNull" "payload \<noteq> JUndefined"
    by (auto simp: getProp_def)
  have nm: "payloadName (getProp payload ''playerName'') = Some (sanitizeName s)"
    by (simp add: assms payloadName_string)
  {
    assume "sanitizeName s = []"
    then show "postSubmit bank lb (Some payload) now = (Bad400 NameRequired, lb)"
      by (simp add: postSubmit_unfold [OF obj] nm)
  }
  fix S tq board st
  assume ok: "postSubmit bank lb (Some payload) now = (Ok200 S tq board, st)"
  let ?T = "payloadTime (getProp payload ''totalTime'')"
  from ok obtain nm' m where
    nm': "payloadName (getProp payload ''playerName'') = Some nm'" "nm' \<noteq> []" and
    st: "scoreAndStore bank lb nm' m ?T now = (Ok200 S tq board, st)"
    by (elim postSubmit_Ok200) auto
  from nm nm' have eq: "nm' = sanitizeName s" by simp
  with nm' show "sanitizeName s \<noteq> []" by simp
  from scoreAndStore_Ok200(1) [OF st]
  show st_eq: "st = sortLeaderboard (mergeEntry lb
               \<lparr>name = sanitizeName s, score = S, totalQuestions = tq,
                totalTime = map_option toFixed2 ?T, completedAt = now\<rparr> ?T)"
    by (simp add: submittedEntry_def eq)
  show "\<forall>e\<in>set st. e \<in> set lb \<or> name e = sanitizeName s"
    using set_sortedMerge [of lb _ ?T] unfolding st_eq by fastforce
qed

theorem name_is_sanitized_witness:
  "getProp (submission paddedName allCorrect (JNum 35)) ''playerName'' = JStr paddedName \<and>
   sanitizeName paddedName = cleanName \<and>
   splitWords paddedName = [[0x41, 0x6E, 0x6E], [0x4C, 0x65, 0x65]] \<and>
   snd (postSubmit exampleBank [] (Some (submission paddedName allCorrect (JNum 35))) 1000)
     = [\<lparr>name = cleanName, score = 3, totalQuestions = 3, totalTime = Some 35,
         completedAt = 1000\<rparr>] \<and>
   getProp (submission [0x20, 0x09] allCorrect (JNum 35)) ''playerName'' = JStr [0x20, 0x09] \<and>
   sanitizeName [0x20, 0x09] = [] \<and>
   postSubmit exampleBank [entryB 3 (Some 40) 1000]
     (Some (submission [0x20, 0x09] allCorrect (JNum 35))) 2000
     = (Bad400 NameRequired, [entryB 3 (Some 40) 1000])"
proof -
  let ?p = "submission paddedName allCorrect (JNum 35)"
  let ?q = "submission [0x20, 0x09] allCorrect (JNum 35)"
  let ?e = "\<lparr>name = cleanName, score = 3, totalQuestions = 3, totalTime = Some 35,
         completedAt = 1000\<rparr>"
  have g: "getProp ?p ''playerName'' = JStr paddedName" by code_simp
  have h: "getProp ?q ''playerName'' = JStr [0x20, 0x09]" by code_simp
  have w: "splitWords paddedName = [[0x41, 0x6E, 0x6E], [0x4C, 0x65, 0x65]]" by code_simp
  have j: "take 32 (joinWords [[0x41, 0x6E, 0x6E], [0x4C, 0x65, 0x65 :: 16 word]]) = cleanName"
    by code_simp
  have v: "snd (postSubmit exampleBank [] (Some ?p) 1000) = [?e]" by code_simp
  have z: "sanitizeName [0x20, 0x09] = []" by code_simp
  from name_is_sanitized [OF g, of exampleBank "[]" 1000] w j
  have 1: "sanitizeName paddedName = cleanName" by simp
  from name_is_sanitized [OF h, of exampleBank "[entryB 3 (Some 40) 1000]" 2000] z
  have 2: "postSubmit exampleBank [entryB 3 (Some 40) 1000] (Some ?q) 2000
     = (Bad400 NameRequired, [entryB 3 (Some 40) 1000])" by blast
  from g h w v z 1 2 show ?thesis by simp
qed

end
